theory Spec2Isabelle
  imports Main "HOL-Library.Monad_Syntax"
begin

section \<open>Data model of \<^verbatim>\<open>tower_of_hanoi.py\<close>\<close>

text \<open>
  \<^verbatim>\<open>class PegName(Enum)\<close>: the three pegs. The enum values are the letters
  \<^verbatim>\<open>"A"\<close>, \<^verbatim>\<open>"B"\<close>, \<^verbatim>\<open>"C"\<close>.
\<close>

datatype PegName = SOURCE | AUXILIARY | DESTINATION

fun value_of :: "PegName \<Rightarrow> string" where
  "value_of SOURCE = ''A''"
| "value_of AUXILIARY = ''B''"
| "value_of DESTINATION = ''C''"

text \<open>
  \<^verbatim>\<open>@dataclass class Move\<close>: \<^verbatim>\<open>Move(disk_size, from_peg, to_peg)\<close>.
  Python integers are unbounded, hence \<^typ>\<open>int\<close>.
\<close>

datatype Move = Move (disk_size: int) (from_peg: PegName) (to_peg: PegName)

text \<open>
  \<^verbatim>\<open>class Disk\<close>: the attributes \<^verbatim>\<open>size\<close>, \<^verbatim>\<open>colour\<close>, \<^verbatim>\<open>x\<close>, \<^verbatim>\<open>y\<close>
  (suffixed here, the plain names being taken). The constructor takes the size and the
  colour and puts the disk at the origin.
\<close>

datatype Disk = Disk (size_disk: int) (colour_disk: string) (x_disk: int) (y_disk: int)

definition Disk_init :: "int \<Rightarrow> string \<Rightarrow> Disk" where
  "Disk_init sz c = Disk sz c 0 0"

text \<open>The exceptions the modelled code can raise.\<close>

datatype error = ValueError | AttributeError | TypeError

section \<open>The move generator\<close>

text \<open>
  \<^verbatim>\<open>hanoi_solver(n, source, destination, auxiliary)\<close> is a generator; the model is the
  list of all moves it yields, in order. The test is \<^verbatim>\<open>n == 1\<close>, so for \<^verbatim>\<open>n <= 0\<close>
  the recursion never reaches the base case and nothing is ever yielded: that is the
  value \<open>None\<close>.
\<close>

partial_function (option) hanoi_solver ::
  "int \<Rightarrow> PegName \<Rightarrow> PegName \<Rightarrow> PegName \<Rightarrow> Move list option" where
  "hanoi_solver n source destination auxiliary =
     (if n = 1 then Some [Move 1 source destination]
      else do {
        before \<leftarrow> hanoi_solver (n - 1) source auxiliary destination;
        after \<leftarrow> hanoi_solver (n - 1) auxiliary destination source;
        Some (before @ [Move n source destination] @ after)
      })"

declare hanoi_solver.simps [code]

section \<open>Pegs\<close>

text \<open>
  \<^verbatim>\<open>class Peg\<close>: a name and a Python list of disks. The list is kept in the source's
  order: index 0 is the bottom disk, the last element (\<^verbatim>\<open>self.disks[-1]\<close>) is the top.
\<close>

record Peg =
  name :: PegName
  disks :: "Disk list"

definition Peg_init :: "PegName \<Rightarrow> Peg" where
  "Peg_init nm = \<lparr>name = nm, disks = []\<rparr>"

text \<open>
  \<^verbatim>\<open>push\<close> raises \<^verbatim>\<open>ValueError\<close> before it touches the list, or appends. The result
  is the outcome together with the peg as the call leaves it.
\<close>

definition push :: "Peg \<Rightarrow> Disk \<Rightarrow> (error + unit) \<times> Peg" where
  "push p disk =
     (if disks p \<noteq> [] \<and> size_disk disk \<ge> size_disk (last (disks p))
      then (Inl ValueError, p)
      else (Inr (), p\<lparr>disks := disks p @ [disk]\<rparr>))"

definition pop :: "Peg \<Rightarrow> Disk option \<times> Peg" where
  "pop p =
     (if disks p \<noteq> [] then (Some (last (disks p)), p\<lparr>disks := butlast (disks p)\<rparr>)
      else (None, p))"

definition peek :: "Peg \<Rightarrow> Disk option" where
  "peek p = (if disks p \<noteq> [] then Some (last (disks p)) else None)"

definition is_empty :: "Peg \<Rightarrow> bool" where
  "is_empty p = (length (disks p) = 0)"

definition size_peg :: "Peg \<Rightarrow> int" where
  "size_peg p = int (length (disks p))"

section \<open>The game state\<close>

text \<open>
  \<^verbatim>\<open>class GameState\<close>. The dictionary \<^verbatim>\<open>self.pegs\<close> has exactly the three members of
  \<^verbatim>\<open>PegName\<close> as keys from construction on and no key is ever added or removed, so it
  is a total function on \<^typ>\<open>PegName\<close>. \<^verbatim>\<open>total_moves\<close> is \<^verbatim>\<open>(2 ** num_disks) - 1\<close>,
  which Python computes as an integer for \<^verbatim>\<open>num_disks >= 0\<close> and as a float for a
  negative exponent; the float is not modelled and stands as \<open>None\<close>.
\<close>

record GameState =
  num_disks :: int
  total_moves :: "int option"
  current_move :: int
  pegs :: "PegName \<Rightarrow> Peg"
  colours :: "string list"

definition pow2_minus1 :: "int \<Rightarrow> int option" where
  "pow2_minus1 n = (if 0 \<le> n then Some (2 ^ nat n - 1) else None)"

definition palette :: "string list" where
  "palette =
     [''#E8F4FD'', ''#4A90E2'', ''#7ED321'', ''#F5A623'', ''#D0021B'',
      ''#9013FE'', ''#50E3C2'', ''#B8E986'', ''#F8E71C'', ''#BD10E0'']"

text \<open>
  \<^verbatim>\<open>self.colours[i - 1] if i <= len(self.colours) else "#CCCCCC"\<close>, used only inside
  the loops below, where \<^verbatim>\<open>i >= 1\<close>, so the index is never negative.
\<close>

definition colour_for :: "string list \<Rightarrow> int \<Rightarrow> string" where
  "colour_for cs i = (if i \<le> int (length cs) then cs ! nat (i - 1) else ''#CCCCCC'')"

text \<open>
  The loop \<^verbatim>\<open>for i in range(n, 0, -1): ... self.pegs[PegName.SOURCE].push(disk)\<close> of
  the constructor and of \<^verbatim>\<open>reset\<close>, started at \<^verbatim>\<open>i\<close> on the peg \<^verbatim>\<open>p\<close>. An exception
  of \<^verbatim>\<open>push\<close> leaves the loop.
\<close>

function init_disks :: "string list \<Rightarrow> int \<Rightarrow> Peg \<Rightarrow> (error + unit) \<times> Peg" where
  "init_disks cs i p =
     (if i \<le> 0 then (Inr (), p)
      else (case push p (Disk_init i (colour_for cs i)) of
              (Inl e, p') \<Rightarrow> (Inl e, p')
            | (Inr u, p') \<Rightarrow> init_disks cs (i - 1) p'))"
  by pat_completeness auto
termination
  by (relation "measure (\<lambda>(cs, i, p). nat i)") auto

declare init_disks.simps [simp del]

text \<open>\<^verbatim>\<open>GameState.__init__\<close>: an exception in the constructor leaves no object.\<close>

definition GameState_init :: "int \<Rightarrow> error + GameState" where
  "GameState_init n =
     (case init_disks palette n (Peg_init SOURCE) of
        (Inl e, p) \<Rightarrow> Inl e
      | (Inr u, p) \<Rightarrow>
          Inr \<lparr>num_disks = n, total_moves = pow2_minus1 n, current_move = 0,
               pegs = Peg_init(SOURCE := p), colours = palette\<rparr>)"

text \<open>
  \<^verbatim>\<open>execute_move\<close> returns the outcome (a boolean, or the exception that escapes) and the
  state as the call leaves it. The destination peg is read again after the pop: when
  \<^verbatim>\<open>move.from_peg\<close> and \<^verbatim>\<open>move.to_peg\<close> are the same key, \<^verbatim>\<open>from_peg\<close> and \<^verbatim>\<open>to_peg\<close>
  are one object and the push sees the popped list. The warnings and the debug line
  go to the log and are left out.

  Three branches stand for a \<open>None\<close> that Python would meet where the code has just seen
  a non-empty list: \<^verbatim>\<open>peek\<close> of the source (the code returns \<open>False\<close> on \<open>disk is None\<close>),
  \<^verbatim>\<open>peek\<close> of the destination, and \<^verbatim>\<open>pop\<close> of the source. The last two are written as
  \<open>AttributeError\<close>; lemma \<open>execute_move_unfold\<close> below shows that none of the three is
  ever taken, so the choice of their value has no effect on any result.
\<close>

definition execute_move :: "GameState \<Rightarrow> Move \<Rightarrow> (error + bool) \<times> GameState" where
  "execute_move s move =
     (if is_empty (pegs s (from_peg move)) then (Inr False, s)
      else (case peek (pegs s (from_peg move)) of
        None \<Rightarrow> (Inr False, s)
      | Some disk \<Rightarrow>
          if size_disk disk \<noteq> disk_size move then (Inr False, s)
          else (case (if is_empty (pegs s (to_peg move)) then Inr False
                      else (case peek (pegs s (to_peg move)) of
                              None \<Rightarrow> Inl AttributeError
                            | Some t \<Rightarrow> Inr (size_disk t < size_disk disk))) of
            Inl e \<Rightarrow> (Inl e, s)
          | Inr True \<Rightarrow> (Inr False, s)
          | Inr False \<Rightarrow>
              (case pop (pegs s (from_peg move)) of (moved_disk, from') \<Rightarrow>
                 let s1 = s\<lparr>pegs := (pegs s)(from_peg move := from')\<rparr> in
                 (case moved_disk of
                    None \<Rightarrow> (Inl AttributeError, s1)
                  | Some d \<Rightarrow>
                      (case push (pegs s1 (to_peg move)) d of
                         (Inl e, to') \<Rightarrow> (Inl e, s1)
                       | (Inr u, to') \<Rightarrow>
                           (Inr True,
                            s1\<lparr>pegs := (pegs s1)(to_peg move := to'),
                               current_move := current_move s1 + 1\<rparr>)))))))"

definition is_solved :: "GameState \<Rightarrow> bool" where
  "is_solved s =
     (size_peg (pegs s DESTINATION) = num_disks s \<and>
      is_empty (pegs s SOURCE) \<and>
      is_empty (pegs s AUXILIARY))"

text \<open>
  \<^verbatim>\<open>reset\<close> mutates the state in place: it clears the three lists, refills the source
  peg and only then sets the counter, so an exception in the loop would leave the
  counter as it was.
\<close>

definition reset :: "GameState \<Rightarrow> (error + unit) \<times> GameState" where
  "reset s =
     (let cleared = (\<lambda>k. (pegs s k)\<lparr>disks := []\<rparr>) in
      case init_disks (colours s) (num_disks s) (cleared SOURCE) of
        (Inl e, p) \<Rightarrow> (Inl e, s\<lparr>pegs := cleared(SOURCE := p)\<rparr>)
      | (Inr u, p) \<Rightarrow> (Inr (), s\<lparr>pegs := cleared(SOURCE := p), current_move := 0\<rparr>))"

text \<open>
  The loop of \<^verbatim>\<open>test_hanoi_algorithm\<close> in \<^verbatim>\<open>test_algorithm.py\<close>: every move is executed
  in order; the first move that reports failure ends the run with \<open>False\<close>, an
  exception ends it with the exception, and \<open>True\<close> means every call returned \<open>True\<close>.
\<close>

fun execute_all :: "GameState \<Rightarrow> Move list \<Rightarrow> (error + bool) \<times> GameState" where
  "execute_all s [] = (Inr True, s)"
| "execute_all s (m # ms) =
     (case execute_move s m of
        (Inr True, s') \<Rightarrow> execute_all s' ms
      | (r, s') \<Rightarrow> (r, s'))"

text \<open>
  The states a program can reach through the interface: a freshly constructed
  \<^verbatim>\<open>GameState(n)\<close>, and whatever state a call of \<^verbatim>\<open>execute_move\<close> leaves behind,
  whether it reported success, failure or an exception.
\<close>

inductive reachable :: "int \<Rightarrow> GameState \<Rightarrow> bool" for n :: int where
  fresh: "GameState_init n = Inr s \<Longrightarrow> reachable n s"
| step: "reachable n s \<Longrightarrow> reachable n (snd (execute_move s m))"

text \<open>Disk sizes of a peg from bottom to top, and the invariant of the data model.\<close>

definition sizes :: "Peg \<Rightarrow> int list" where
  "sizes p = map size_disk (disks p)"

definition strictly_decreasing :: "int list \<Rightarrow> bool" where
  "strictly_decreasing xs = sorted_wrt (\<lambda>a b. a > b) xs"

text \<open>
  The invariant of the three pegs, the condition that no disk size occurs on two pegs,
  and the facts about a state that hold from construction on.
\<close>

definition all_pegs_decreasing :: "GameState \<Rightarrow> bool" where
  "all_pegs_decreasing s =
     (strictly_decreasing (sizes (pegs s SOURCE)) \<and>
      strictly_decreasing (sizes (pegs s AUXILIARY)) \<and>
      strictly_decreasing (sizes (pegs s DESTINATION)))"

definition sizes_disjoint :: "GameState \<Rightarrow> bool" where
  "sizes_disjoint s =
     (set (sizes (pegs s SOURCE)) \<inter> set (sizes (pegs s AUXILIARY)) = {} \<and>
      set (sizes (pegs s SOURCE)) \<inter> set (sizes (pegs s DESTINATION)) = {} \<and>
      set (sizes (pegs s AUXILIARY)) \<inter> set (sizes (pegs s DESTINATION)) = {})"

definition well_formed :: "int \<Rightarrow> GameState \<Rightarrow> bool" where
  "well_formed n s =
     (num_disks s = n \<and> colours s = palette \<and> total_moves s = pow2_minus1 n \<and>
      name (pegs s SOURCE) = SOURCE \<and>
      name (pegs s AUXILIARY) = AUXILIARY \<and>
      name (pegs s DESTINATION) = DESTINATION \<and>
      all_pegs_decreasing s \<and> sizes_disjoint s)"

section \<open>The playback controller\<close>

text \<open>
  The part of \<^verbatim>\<open>class TowerOfHanoiGUI\<close> that drives the generator against the state:
  the attributes \<^verbatim>\<open>game_state\<close>, \<^verbatim>\<open>move_generator\<close>, \<^verbatim>\<open>is_solving\<close>, \<^verbatim>\<open>is_paused\<close>,
  \<^verbatim>\<open>animation_speed\<close> and \<^verbatim>\<open>current_move\<close> (suffixed here, \<^verbatim>\<open>GameState\<close> has an
  attribute of that name). A generator object is the list of the moves it has not yet
  yielded; \<open>None\<close> is Python's \<^verbatim>\<open>None\<close>. \<open>scheduled\<close> records the delays of the
  callbacks registered with \<^verbatim>\<open>self.root.after(self.animation_speed, self.next_move)\<close>,
  oldest first. Widgets, drawing, the status line and message boxes are presentation
  and are left out.
\<close>

record GUI =
  game_state :: "GameState option"
  move_generator :: "Move list option"
  is_solving :: bool
  is_paused :: bool
  animation_speed :: int
  current_move_gui :: "Move option"
  scheduled :: "int list"

definition finish_solving :: "GUI \<Rightarrow> GUI" where
  "finish_solving g = g\<lparr>is_solving := False, is_paused := False\<rparr>"

text \<open>
  \<^verbatim>\<open>next_move\<close>: \<^verbatim>\<open>StopIteration\<close> from \<^verbatim>\<open>next\<close> is caught; any other exception leaves
  the method with the attributes as they are at that point.
\<close>

definition next_move :: "GUI \<Rightarrow> (error + unit) \<times> GUI" where
  "next_move g =
     (if \<not> is_solving g \<or> is_paused g then (Inr (), g)
      else (case move_generator g of
        None \<Rightarrow> (Inl TypeError, g)
      | Some [] \<Rightarrow> (Inr (), finish_solving (g\<lparr>current_move_gui := None\<rparr>))
      | Some (move # rest) \<Rightarrow>
          let g1 = g\<lparr>move_generator := Some rest, current_move_gui := Some move\<rparr> in
          (case game_state g1 of
             None \<Rightarrow> (Inl AttributeError, g1)
           | Some gs \<Rightarrow>
               (case execute_move gs move of
                  (Inl e, gs') \<Rightarrow> (Inl e, g1\<lparr>game_state := Some gs'\<rparr>)
                | (Inr success, gs') \<Rightarrow>
                    let g2 = g1\<lparr>game_state := Some gs'\<rparr> in
                    if success then
                      (if is_solved gs'
                       then (Inr (), finish_solving (g2\<lparr>current_move_gui := None\<rparr>))
                       else (Inr (), g2\<lparr>scheduled := scheduled g2 @ [animation_speed g2]\<rparr>))
                    else (Inr (), finish_solving (g2\<lparr>current_move_gui := None\<rparr>))))))"

definition toggle_pause :: "GUI \<Rightarrow> (error + unit) \<times> GUI" where
  "toggle_pause g =
     (if \<not> is_solving g then (Inr (), g)
      else
        let g1 = g\<lparr>is_paused := \<not> is_paused g\<rparr> in
        if \<not> is_paused g1 then next_move g1 else (Inr (), g1))"

section \<open>The generated sequence\<close>

lemma hanoi_solver_one: "hanoi_solver 1 s d a = Some [Move 1 s d]"
  by (subst hanoi_solver.simps) simp

lemma hanoi_solver_rec:
  "n \<noteq> 1 \<Longrightarrow> hanoi_solver n s d a =
     (hanoi_solver (n - 1) s a d \<bind> (\<lambda>before.
      hanoi_solver (n - 1) a d s \<bind> (\<lambda>after.
      Some (before @ [Move n s d] @ after))))"
  by (subst hanoi_solver.simps) simp

text \<open>
  For \<open>n \<ge> 1\<close> the generator is exhausted after finitely many moves; their number and
  the number of moves of each disk follow the recursion.
\<close>

lemma hanoi_solver_count:
  "1 \<le> n \<Longrightarrow> \<exists>ms. hanoi_solver n s d a = Some ms \<and> length ms = 2 ^ nat n - 1 \<and>
     (\<forall>k. length (filter (\<lambda>m. disk_size m = k) ms) =
        (if 1 \<le> k \<and> k \<le> n then 2 ^ nat (n - k) else 0))"
proof (induction n arbitrary: s d a rule: int_ge_induct)
  case base
  show ?case by (auto simp: hanoi_solver_one)
next
  case (step i)
  obtain xs where xs: "hanoi_solver i s a d = Some xs" "length xs = 2 ^ nat i - 1"
    "\<And>k. length (filter (\<lambda>m. disk_size m = k) xs) =
       (if 1 \<le> k \<and> k \<le> i then 2 ^ nat (i - k) else 0)"
    using step.IH [of s a d] by blast
  obtain ys where ys: "hanoi_solver i a d s = Some ys" "length ys = 2 ^ nat i - 1"
    "\<And>k. length (filter (\<lambda>m. disk_size m = k) ys) =
       (if 1 \<le> k \<and> k \<le> i then 2 ^ nat (i - k) else 0)"
    using step.IH [of a d s] by blast
  have eq: "hanoi_solver (i + 1) s d a = Some (xs @ [Move (i + 1) s d] @ ys)"
    using step.hyps xs(1) ys(1) by (simp add: hanoi_solver_rec)
  have pos: "(1::nat) \<le> 2 ^ nat i" by simp
  have suc: "nat (i + 1) = Suc (nat i)" using step.hyps by simp
  have len: "length (xs @ [Move (i + 1) s d] @ ys) = 2 ^ nat (i + 1) - 1"
    using pos by (simp add: xs(2) ys(2) suc)
  have cnt: "length (filter (\<lambda>m. disk_size m = k) (xs @ [Move (i + 1) s d] @ ys)) =
      (if 1 \<le> k \<and> k \<le> i + 1 then 2 ^ nat (i + 1 - k) else 0)" for k
  proof (cases "1 \<le> k \<and> k \<le> i")
    case True
    then have "nat (i + 1 - k) = Suc (nat (i - k))" by arith
    with True show ?thesis by (simp add: xs(3) ys(3))
  next
    case False
    then have "filter (\<lambda>m. disk_size m = k) xs = []" "filter (\<lambda>m. disk_size m = k) ys = []"
      using xs(3) [of k] ys(3) [of k] by auto
    then show ?thesis using False step.hyps by auto
  qed
  show ?case using eq len cnt by blast
qed

text \<open>
  C2. For every \<open>n \<ge> 1\<close> the sequence yielded by
  \<^verbatim>\<open>hanoi_solver(n, source, destination, auxiliary)\<close> is finite (the generator is
  exhausted: the model returns \<open>Some\<close> list) and has exactly \<open>2^n - 1\<close> moves.
\<close>

theorem hanoi_solver_length:
  "1 \<le> n \<Longrightarrow>
   \<exists>ms. hanoi_solver n source destination auxiliary = Some ms \<and> length ms = 2 ^ nat n - 1"
  using hanoi_solver_count [of n source destination auxiliary] by blast

theorem hanoi_solver_length_witness:
  "(1::int) \<le> 20 \<and>
   (\<exists>ms. hanoi_solver 20 SOURCE DESTINATION AUXILIARY = Some ms \<and> length ms = 1048575)"
  using hanoi_solver_length [of 20 SOURCE DESTINATION AUXILIARY] by simp

text \<open>
  C5. For every \<open>n \<ge> 1\<close> and every \<open>k\<close> with \<open>1 \<le> k \<le> n\<close>, the moves of disk \<open>k\<close>
  appear exactly \<open>2^(n-k)\<close> times in the sequence yielded by \<^verbatim>\<open>hanoi_solver\<close>.
\<close>

theorem hanoi_solver_disk_moves:
  "1 \<le> n \<Longrightarrow> 1 \<le> k \<Longrightarrow> k \<le> n \<Longrightarrow>
   \<exists>ms. hanoi_solver n source destination auxiliary = Some ms \<and>
        length (filter (\<lambda>m. disk_size m = k) ms) = 2 ^ nat (n - k)"
  using hanoi_solver_count [of n source destination auxiliary] by auto

theorem hanoi_solver_disk_moves_witness:
  "(1::int) \<le> 5 \<and> (1::int) \<le> 2 \<and> (2::int) \<le> 5 \<and>
   (\<exists>ms. hanoi_solver 5 SOURCE DESTINATION AUXILIARY = Some ms \<and>
         length (filter (\<lambda>m. disk_size m = 2) ms) = 8)"
  using hanoi_solver_disk_moves [of 5 2 SOURCE DESTINATION AUXILIARY] by simp

text \<open>
  C8. \<^verbatim>\<open>hanoi_solver(3, SOURCE, DESTINATION, AUXILIARY)\<close> yields exactly the seven moves
  (1,A,C), (2,A,B), (1,C,B), (3,A,C), (1,B,A), (2,B,C), (1,A,C); executed on a fresh
  \<^verbatim>\<open>GameState(3)\<close> every one of them succeeds and the run ends with SOURCE and
  AUXILIARY empty and DESTINATION holding the disks 3, 2, 1 from bottom to top.
\<close>

theorem hanoi_three_disks:
  "hanoi_solver 3 SOURCE DESTINATION AUXILIARY =
     Some [Move 1 SOURCE DESTINATION, Move 2 SOURCE AUXILIARY, Move 1 DESTINATION AUXILIARY,
           Move 3 SOURCE DESTINATION, Move 1 AUXILIARY SOURCE, Move 2 AUXILIARY DESTINATION,
           Move 1 SOURCE DESTINATION] \<and>
   map value_of [SOURCE, AUXILIARY, DESTINATION] = [''A'', ''B'', ''C''] \<and>
   (case GameState_init 3 of
      Inl e \<Rightarrow> False
    | Inr s0 \<Rightarrow>
        (case execute_all s0
                [Move 1 SOURCE DESTINATION, Move 2 SOURCE AUXILIARY,
                 Move 1 DESTINATION AUXILIARY, Move 3 SOURCE DESTINATION,
                 Move 1 AUXILIARY SOURCE, Move 2 AUXILIARY DESTINATION,
                 Move 1 SOURCE DESTINATION] of
           (r, s') \<Rightarrow>
             r = Inr True \<and>
             sizes (pegs s' SOURCE) = [] \<and>
             sizes (pegs s' AUXILIARY) = [] \<and>
             sizes (pegs s' DESTINATION) = [3, 2, 1]))"
  by code_simp

section \<open>Moves on a state\<close>

lemma execute_move_unfold:
  "execute_move s m =
     (let f = from_peg m; t = to_peg m; ds = disks (pegs s f) in
      if ds = [] then (Inr False, s)
      else if size_disk (last ds) \<noteq> disk_size m then (Inr False, s)
      else if disks (pegs s t) \<noteq> [] \<and> size_disk (last (disks (pegs s t))) < size_disk (last ds)
        then (Inr False, s)
      else
        let s1 = s\<lparr>pegs := (pegs s)(f := (pegs s f)\<lparr>disks := butlast ds\<rparr>)\<rparr> in
        if disks (pegs s1 t) \<noteq> [] \<and> size_disk (last (disks (pegs s1 t))) \<le> size_disk (last ds)
        then (Inl ValueError, s1)
        else (Inr True,
              s1\<lparr>pegs := (pegs s1)(t := (pegs s1 t)\<lparr>disks := disks (pegs s1 t) @ [last ds]\<rparr>),
                 current_move := current_move s + 1\<rparr>))"
  by (simp add: execute_move_def is_empty_def peek_def pop_def push_def Let_def)

lemma strictly_decreasing_snoc:
  "strictly_decreasing (xs @ [x]) \<longleftrightarrow> strictly_decreasing xs \<and> (xs = [] \<or> x < last xs)"
proof -
  have "(\<forall>y\<in>set xs. x < y) \<longleftrightarrow> xs = [] \<or> x < last xs"
    if "sorted_wrt (\<lambda>a b. a > b) xs"
  proof (cases xs rule: rev_cases)
    case Nil
    then show ?thesis by simp
  next
    case (snoc ys y)
    with that have "\<forall>z\<in>set ys. y < z" by (simp add: sorted_wrt_append)
    then show ?thesis using snoc by fastforce
  qed
  then show ?thesis by (auto simp: strictly_decreasing_def sorted_wrt_append)
qed

lemma strictly_decreasing_butlast:
  "strictly_decreasing xs \<Longrightarrow> strictly_decreasing (butlast xs)"
  by (cases xs rule: rev_cases) (simp_all add: strictly_decreasing_def sorted_wrt_append)

lemma strictly_decreasing_last_notin:
  "strictly_decreasing (xs @ [x]) \<Longrightarrow> x \<notin> set xs"
  by (auto simp: strictly_decreasing_def sorted_wrt_append)

lemma all_pegs_decreasing_iff:
  "all_pegs_decreasing s \<longleftrightarrow> (\<forall>k. strictly_decreasing (sizes (pegs s k)))"
  unfolding all_pegs_decreasing_def
  by (metis PegName.exhaust)

lemma execute_move_keeps_decreasing:
  assumes "all_pegs_decreasing s" and "execute_move s m = (Inr True, s')"
  shows "all_pegs_decreasing s'"
proof -
  let ?f = "from_peg m" and ?t = "to_peg m"
  let ?ds = "disks (pegs s ?f)"
  let ?s1 = "s\<lparr>pegs := (pegs s)(?f := (pegs s ?f)\<lparr>disks := butlast ?ds\<rparr>)\<rparr>"
  from assms(2) have ok: "disks (pegs ?s1 ?t) = [] \<or>
      size_disk (last ?ds) < size_disk (last (disks (pegs ?s1 ?t)))"
    and s': "s' = ?s1\<lparr>pegs := (pegs ?s1)(?t := (pegs ?s1 ?t)\<lparr>disks := disks (pegs ?s1 ?t) @ [last ?ds]\<rparr>),
                 current_move := current_move s + 1\<rparr>"
    by (auto simp: execute_move_unfold Let_def split: if_splits)
  have dec: "strictly_decreasing (sizes (pegs s k))" for k
    using assms(1) by (simp add: all_pegs_decreasing_iff)
  have dec1: "strictly_decreasing (sizes (pegs ?s1 k))" for k
    using dec [of k] strictly_decreasing_butlast [of "sizes (pegs s ?f)"]
    by (auto simp: sizes_def map_butlast)
  have "strictly_decreasing (sizes (pegs s' k))" for k
  proof (cases "k = ?t")
    case True
    have "strictly_decreasing (sizes (pegs ?s1 ?t) @ [size_disk (last ?ds)])"
    proof (cases "disks (pegs ?s1 ?t) = []")
      case True
      then show ?thesis by (simp add: sizes_def strictly_decreasing_def)
    next
      case False
      then have "last (sizes (pegs ?s1 ?t)) = size_disk (last (disks (pegs ?s1 ?t)))"
        unfolding sizes_def by (rule last_map)
      then show ?thesis
        using ok False dec1 [of ?t] unfolding strictly_decreasing_snoc by simp
    qed
    then show ?thesis using True by (simp add: s' sizes_def)
  next
    case False
    then show ?thesis using dec1 [of k] by (simp add: s' sizes_def)
  qed
  then show ?thesis by (simp add: all_pegs_decreasing_iff)
qed

lemma sizes_disjoint_iff:
  "sizes_disjoint s \<longleftrightarrow>
     (\<forall>k k'. k \<noteq> k' \<longrightarrow> set (sizes (pegs s k)) \<inter> set (sizes (pegs s k')) = {})"
proof
  assume d: "sizes_disjoint s"
  show "\<forall>k k'. k \<noteq> k' \<longrightarrow> set (sizes (pegs s k)) \<inter> set (sizes (pegs s k')) = {}"
  proof (intro allI impI)
    fix k k' :: PegName
    assume "k \<noteq> k'"
    then show "set (sizes (pegs s k)) \<inter> set (sizes (pegs s k')) = {}"
      using d unfolding sizes_disjoint_def
      by (cases k; cases k') (simp_all add: Int_commute)
  qed
next
  assume "\<forall>k k'. k \<noteq> k' \<longrightarrow> set (sizes (pegs s k)) \<inter> set (sizes (pegs s k')) = {}"
  then show "sizes_disjoint s" by (simp add: sizes_disjoint_def)
qed

lemma execute_move_well_formed:
  assumes wf: "well_formed n s"
  shows "(\<exists>b. fst (execute_move s m) = Inr b) \<and> well_formed n (snd (execute_move s m))"
proof (cases "execute_move s m = (Inr False, s)")
  case True
  then have "fst (execute_move s m) = Inr False" "snd (execute_move s m) = s" by simp_all
  then show ?thesis using wf by metis
next
  case False
  let ?f = "from_peg m" and ?t = "to_peg m"
  let ?ds = "disks (pegs s ?f)"
  let ?d = "last ?ds"
  let ?s1 = "s\<lparr>pegs := (pegs s)(?f := (pegs s ?f)\<lparr>disks := butlast ?ds\<rparr>)\<rparr>"
  let ?s2 = "?s1\<lparr>pegs := (pegs ?s1)(?t := (pegs ?s1 ?t)\<lparr>disks := disks (pegs ?s1 ?t) @ [?d]\<rparr>),
                 current_move := current_move s + 1\<rparr>"
  from False have ne: "?ds \<noteq> []"
    and guard: "disks (pegs s ?t) = [] \<or> \<not> size_disk (last (disks (pegs s ?t))) < size_disk ?d"
    by (auto simp: execute_move_unfold Let_def split: if_splits)
  have dec: "strictly_decreasing (sizes (pegs s k))" for k
    using wf by (simp add: well_formed_def all_pegs_decreasing_iff)
  have dis: "k \<noteq> k' \<Longrightarrow> set (sizes (pegs s k)) \<inter> set (sizes (pegs s k')) = {}" for k k'
    using wf by (simp add: well_formed_def sizes_disjoint_iff)
  have split: "sizes (pegs s ?f) = map size_disk (butlast ?ds) @ [size_disk ?d]"
  proof -
    have "map size_disk (butlast ?ds @ [?d]) = map size_disk (butlast ?ds) @ [size_disk ?d]"
      by simp
    then show ?thesis using ne by (simp add: sizes_def)
  qed
  have d_in: "size_disk ?d \<in> set (sizes (pegs s ?f))"
    by (simp add: split)
  have d_notin: "size_disk ?d \<notin> set (map size_disk (butlast ?ds))"
    using dec [of ?f] unfolding split by (rule strictly_decreasing_last_notin)
  have fits: "disks (pegs ?s1 ?t) = [] \<or> size_disk ?d < size_disk (last (disks (pegs ?s1 ?t)))"
  proof (cases "?t = ?f")
    case True
    show ?thesis
    proof (cases "butlast ?ds = []")
      case empty: True
      then show ?thesis using True by simp
    next
      case nonempty: False
      then have "last (map size_disk (butlast ?ds)) = size_disk (last (butlast ?ds))"
        by (rule last_map)
      moreover have "size_disk ?d < last (map size_disk (butlast ?ds))"
        using dec [of ?f] nonempty unfolding split strictly_decreasing_snoc by simp
      ultimately show ?thesis using True by simp
    qed
  next
    case neq: False
    show ?thesis
    proof (cases "disks (pegs s ?t) = []")
      case True
      then show ?thesis using neq by simp
    next
      case nonempty: False
      then have "size_disk (last (disks (pegs s ?t))) \<in> set (sizes (pegs s ?t))"
        by (simp add: sizes_def)
      with d_in dis [of ?t ?f] neq
      have "size_disk (last (disks (pegs s ?t))) \<noteq> size_disk ?d" by auto
      with guard nonempty neq show ?thesis by auto
    qed
  qed
  have res: "execute_move s m = (Inr True, ?s2)"
    using False fits by (auto simp: execute_move_unfold Let_def split: if_splits)
  have dec2: "all_pegs_decreasing ?s2"
    using wf res by (auto simp: well_formed_def intro: execute_move_keeps_decreasing)
  have dis2: "sizes_disjoint ?s2"
  proof (cases "?t = ?f")
    case True
    then have "sizes (pegs ?s2 k) = sizes (pegs s k)" for k
      using ne by (simp add: sizes_def)
    then show ?thesis using wf by (simp add: well_formed_def sizes_disjoint_def)
  next
    case neq: False
    have A: "set (sizes (pegs ?s2 ?f)) = set (sizes (pegs s ?f)) - {size_disk ?d}"
      using neq d_notin by (auto simp: sizes_def split [unfolded sizes_def])
    have B: "set (sizes (pegs ?s2 ?t)) = insert (size_disk ?d) (set (sizes (pegs s ?t)))"
      using neq by (auto simp: sizes_def)
    have C: "k \<noteq> ?f \<Longrightarrow> k \<noteq> ?t \<Longrightarrow> sizes (pegs ?s2 k) = sizes (pegs s k)" for k
      by (simp add: sizes_def)
    have "set (sizes (pegs ?s2 k)) \<inter> set (sizes (pegs ?s2 k')) = {}" if kk: "k \<noteq> k'" for k k'
    proof -
      consider "k = ?f" "k' = ?t" | "k = ?t" "k' = ?f" | "k = ?f" "k' \<noteq> ?f" "k' \<noteq> ?t"
        | "k = ?t" "k' \<noteq> ?f" "k' \<noteq> ?t" | "k' = ?f" "k \<noteq> ?f" "k \<noteq> ?t"
        | "k' = ?t" "k \<noteq> ?f" "k \<noteq> ?t" | "k \<noteq> ?f" "k \<noteq> ?t" "k' \<noteq> ?f" "k' \<noteq> ?t"
        using kk by blast
      then show ?thesis
      proof cases
        case 1
        then show ?thesis using dis [of ?f ?t] neq unfolding 1 A B by auto
      next
        case 2
        then show ?thesis using dis [of ?f ?t] neq unfolding 2 A B by auto
      next
        case 3
        then show ?thesis using dis [of ?f k'] unfolding 3(1) A C [OF 3(2,3)] by auto
      next
        case 4
        then show ?thesis using dis [of ?t k'] dis [of ?f k'] d_in unfolding 4(1) B C [OF 4(2,3)] by auto
      next
        case 5
        then show ?thesis using dis [of k ?f] unfolding 5(1) A C [OF 5(2,3)] by auto
      next
        case 6
        then show ?thesis using dis [of k ?t] dis [of k ?f] d_in unfolding 6(1) B C [OF 6(2,3)] by auto
      next
        case 7
        then show ?thesis using dis [of k k'] kk unfolding C [OF 7(1,2)] C [OF 7(3,4)] by auto
      qed
    qed
    then show ?thesis by (simp add: sizes_disjoint_iff)
  qed
  have "well_formed n ?s2"
    using wf dec2 dis2 by (simp add: well_formed_def)
  then show ?thesis unfolding res by (intro conjI exI [of _ True]) simp_all
qed

section \<open>Construction, reachable states and reset\<close>

text \<open>
  The filling loop never raises when the peg is empty or its top is larger than the
  first disk pushed: it appends the disks \<open>i, i - 1, ..., 1\<close>.
\<close>

lemma init_disks_fills:
  "disks p = [] \<or> i < size_disk (last (disks p)) \<Longrightarrow>
   init_disks cs i p =
     (Inr (), p\<lparr>disks := disks p @ map (\<lambda>j. Disk_init j (colour_for cs j)) (rev [1..i])\<rparr>)"
proof (induction cs i p rule: init_disks.induct)
  case (1 cs i p)
  show ?case
  proof (cases "i \<le> 0")
    case True
    then show ?thesis by (subst init_disks.simps) simp
  next
    case False
    let ?d = "Disk_init i (colour_for cs i)"
    let ?p = "p\<lparr>disks := disks p @ [?d]\<rparr>"
    have pu: "push p ?d = (Inr (), ?p)"
      using "1.prems" by (auto simp: push_def Disk_init_def)
    have "init_disks cs (i - 1) ?p =
        (Inr (), ?p\<lparr>disks := disks ?p @ map (\<lambda>j. Disk_init j (colour_for cs j)) (rev [1..i - 1])\<rparr>)"
      using False pu by (intro "1.IH") (auto simp: Disk_init_def)
    moreover have "[1..i] = [1..i - 1] @ [i]"
      using False by (simp add: upto_rec2)
    ultimately show ?thesis
      using False pu by (subst init_disks.simps) simp
  qed
qed

lemma sizes_fresh:
  "map size_disk (map (\<lambda>j. Disk_init j (colour_for cs j)) (rev [1..n])) = rev [1..n]"
  by (simp add: Disk_init_def comp_def)

lemma GameState_init_eq:
  "GameState_init n =
     Inr \<lparr>num_disks = n, total_moves = pow2_minus1 n, current_move = 0,
          pegs = Peg_init(SOURCE :=
                   \<lparr>name = SOURCE,
                    disks = map (\<lambda>j. Disk_init j (colour_for palette j)) (rev [1..n])\<rparr>),
          colours = palette\<rparr>"
  by (simp add: GameState_init_def init_disks_fills Peg_init_def)

lemma strictly_decreasing_countdown: "strictly_decreasing (rev [1..n])"
  by (simp add: strictly_decreasing_def sorted_wrt_rev)

lemma GameState_init_well_formed:
  "GameState_init n = Inr s \<Longrightarrow> well_formed n s"
  unfolding GameState_init_eq
  by (auto simp: well_formed_def all_pegs_decreasing_def sizes_disjoint_def sizes_def
      Peg_init_def Disk_init_def comp_def strictly_decreasing_def sorted_wrt_rev)

lemma reachable_well_formed: "reachable n s \<Longrightarrow> well_formed n s"
proof (induction rule: reachable.induct)
  case (fresh s)
  then show ?case by (rule GameState_init_well_formed)
next
  case (step s m)
  then show ?case using execute_move_well_formed by blast
qed

text \<open>
  C10. In every state reachable from a fresh \<^verbatim>\<open>GameState(n)\<close> by calls of
  \<^verbatim>\<open>execute_move\<close>, \<^verbatim>\<open>execute_move\<close> raises no exception for any \<^verbatim>\<open>Move\<close>: the
  \<^verbatim>\<open>ValueError\<close> of \<^verbatim>\<open>Peg.push\<close> after the pop is never reached, and the call returns a
  boolean.
\<close>

theorem execute_move_never_raises:
  "reachable n s \<Longrightarrow> \<exists>b. fst (execute_move s m) = Inr b"
  using reachable_well_formed [of n s] execute_move_well_formed [of n s m] by blast

theorem execute_move_never_raises_witness:
  "case GameState_init 3 of
     Inl e \<Rightarrow> False
   | Inr s0 \<Rightarrow>
       reachable 3 (snd (execute_move s0 (Move 1 SOURCE DESTINATION))) \<and>
       (\<exists>b. fst (execute_move (snd (execute_move s0 (Move 1 SOURCE DESTINATION)))
                 (Move 2 SOURCE DESTINATION)) = Inr b) \<and>
       fst (execute_move (snd (execute_move s0 (Move 1 SOURCE DESTINATION)))
              (Move 2 SOURCE DESTINATION)) = Inr False"
proof -
  obtain s0 where s0: "GameState_init 3 = Inr s0"
    using GameState_init_eq by blast
  let ?s1 = "snd (execute_move s0 (Move 1 SOURCE DESTINATION))"
  have r: "reachable 3 ?s1"
    by (intro reachable.step reachable.fresh s0)
  have v: "case GameState_init 3 of
     Inl e \<Rightarrow> False
   | Inr s0 \<Rightarrow> fst (execute_move (snd (execute_move s0 (Move 1 SOURCE DESTINATION)))
              (Move 2 SOURCE DESTINATION)) = Inr False"
    by code_simp
  show ?thesis
    using r v execute_move_never_raises [OF r, of "Move 2 SOURCE DESTINATION"]
    by (simp add: s0)
qed

text \<open>
  C4. In every state reachable from a fresh \<^verbatim>\<open>GameState(n)\<close> the disk sizes of every
  peg, read from bottom to top, are strictly decreasing; and a call of \<^verbatim>\<open>execute_move\<close>
  that returns \<^verbatim>\<open>True\<close> on a state with strictly decreasing pegs leaves a state with
  strictly decreasing pegs.
\<close>

theorem pegs_stay_strictly_decreasing:
  "(reachable n s \<longrightarrow> all_pegs_decreasing s) \<and>
   (all_pegs_decreasing s \<longrightarrow> execute_move s m = (Inr True, s') \<longrightarrow> all_pegs_decreasing s')"
  using reachable_well_formed [of n s] execute_move_keeps_decreasing [of s m s']
  by (auto simp: well_formed_def)

theorem pegs_stay_strictly_decreasing_witness:
  "case GameState_init 3 of
     Inl e \<Rightarrow> False
   | Inr s0 \<Rightarrow>
       reachable 3 s0 \<and> all_pegs_decreasing s0 \<and>
       fst (execute_move s0 (Move 1 SOURCE DESTINATION)) = Inr True \<and>
       all_pegs_decreasing (snd (execute_move s0 (Move 1 SOURCE DESTINATION)))"
proof -
  obtain s0 where s0: "GameState_init 3 = Inr s0"
    using GameState_init_eq by blast
  let ?m = "Move 1 SOURCE DESTINATION"
  have r: "reachable 3 s0" by (rule reachable.fresh [OF s0])
  have v: "case GameState_init 3 of
     Inl e \<Rightarrow> False
   | Inr s0 \<Rightarrow> fst (execute_move s0 (Move 1 SOURCE DESTINATION)) = Inr True"
    by code_simp
  then have e: "execute_move s0 ?m = (Inr True, snd (execute_move s0 ?m))"
    by (simp add: s0 prod_eq_iff)
  show ?thesis
    using r v e pegs_stay_strictly_decreasing [of 3 s0 ?m "snd (execute_move s0 ?m)"]
    by (simp add: s0)
qed

text \<open>
  C7. For every \<open>n\<close> and every state reached from \<^verbatim>\<open>GameState(n)\<close> by calls of
  \<^verbatim>\<open>execute_move\<close>, \<^verbatim>\<open>reset()\<close> raises nothing and leaves a state equal to a freshly
  constructed \<^verbatim>\<open>GameState(n)\<close>: SOURCE holds the disks \<open>n, ..., 1\<close> with the largest at
  the bottom, AUXILIARY and DESTINATION are empty and \<^verbatim>\<open>current_move\<close> is 0.
\<close>

theorem reset_restores_fresh_state:
  "reachable n s \<Longrightarrow>
   \<exists>s0. GameState_init n = Inr s0 \<and> reset s = (Inr (), s0) \<and>
        sizes (pegs s0 SOURCE) = rev [1..n] \<and>
        disks (pegs s0 AUXILIARY) = [] \<and> disks (pegs s0 DESTINATION) = [] \<and>
        current_move s0 = 0"
proof -
  assume "reachable n s"
  then have wf: "well_formed n s" by (rule reachable_well_formed)
  let ?filled = "map (\<lambda>j. Disk_init j (colour_for palette j)) (rev [1..n])"
  let ?s0 = "\<lparr>num_disks = n, total_moves = pow2_minus1 n, current_move = 0,
          pegs = Peg_init(SOURCE := \<lparr>name = SOURCE, disks = ?filled\<rparr>),
          colours = palette\<rparr>"
  have names: "(pegs s k)\<lparr>disks := ds\<rparr> = \<lparr>name = k, disks = ds\<rparr>" for k ds
    using wf by (cases k; cases "pegs s k") (simp_all add: well_formed_def)
  have fill: "init_disks palette n \<lparr>name = SOURCE, disks = []\<rparr> =
      (Inr (), \<lparr>name = SOURCE, disks = ?filled\<rparr>)"
    by (simp add: init_disks_fills)
  have pegs_eq: "(\<lambda>k. \<lparr>name = k, disks = []\<rparr>)(SOURCE := \<lparr>name = SOURCE, disks = ?filled\<rparr>) =
      Peg_init(SOURCE := \<lparr>name = SOURCE, disks = ?filled\<rparr>)"
    by (auto simp: fun_eq_iff Peg_init_def)
  have cleared: "(\<lambda>k. (pegs s k)\<lparr>disks := []\<rparr>) = (\<lambda>k. \<lparr>name = k, disks = []\<rparr>)"
    by (simp add: names)
  have fields: "num_disks s = n" "colours s = palette" "total_moves s = pow2_minus1 n"
    using wf by (simp_all add: well_formed_def)
  have "reset s =
      (Inr (), s\<lparr>pegs := Peg_init(SOURCE := \<lparr>name = SOURCE, disks = ?filled\<rparr>),
                 current_move := 0\<rparr>)"
    by (simp add: reset_def Let_def cleared fields fill pegs_eq)
  moreover have "s\<lparr>pegs := Peg_init(SOURCE := \<lparr>name = SOURCE, disks = ?filled\<rparr>),
                 current_move := 0\<rparr> = ?s0"
    using fields by (cases s) simp
  ultimately have "reset s = (Inr (), ?s0)" by simp
  then show ?thesis
    by (simp add: GameState_init_eq sizes_def Peg_init_def Disk_init_def comp_def)
qed

theorem reset_restores_fresh_state_witness:
  "case GameState_init 3 of
     Inl e \<Rightarrow> False
   | Inr s0 \<Rightarrow>
       reachable 3 (snd (execute_move s0 (Move 1 SOURCE DESTINATION))) \<and>
       current_move (snd (execute_move s0 (Move 1 SOURCE DESTINATION))) = 1 \<and>
       reset (snd (execute_move s0 (Move 1 SOURCE DESTINATION))) = (Inr (), s0) \<and>
       sizes (pegs s0 SOURCE) = [3, 2, 1] \<and>
       disks (pegs s0 AUXILIARY) = [] \<and> disks (pegs s0 DESTINATION) = [] \<and>
       current_move s0 = 0"
proof -
  obtain s0 where s0: "GameState_init 3 = Inr s0"
    using GameState_init_eq by blast
  let ?s1 = "snd (execute_move s0 (Move 1 SOURCE DESTINATION))"
  have r: "reachable 3 ?s1"
    by (intro reachable.step reachable.fresh s0)
  have v: "case GameState_init 3 of
     Inl e \<Rightarrow> False
   | Inr s0 \<Rightarrow> current_move (snd (execute_move s0 (Move 1 SOURCE DESTINATION))) = 1 \<and>
       sizes (pegs s0 SOURCE) = [3, 2, 1]"
    by code_simp
  show ?thesis
    using r v reset_restores_fresh_state [OF r]
    by (simp add: s0)
qed

section \<open>Running the generated sequence\<close>

lemma execute_all_append:
  "execute_all s xs = (Inr True, s') \<Longrightarrow> execute_all s (xs @ ys) = execute_all s' ys"
  by (induction xs arbitrary: s) (auto split: prod.splits sum.splits bool.splits)

lemma execute_move_legal:
  assumes "f \<noteq> t" and "disks (pegs s f) = xs @ [d]" and "size_disk d = k"
    and "\<forall>x\<in>set (disks (pegs s t)). k < size_disk x"
  shows "\<exists>s'. execute_move s (Move k f t) = (Inr True, s') \<and>
      disks (pegs s' f) = xs \<and> disks (pegs s' t) = disks (pegs s t) @ [d] \<and>
      (\<forall>a. a \<noteq> f \<longrightarrow> a \<noteq> t \<longrightarrow> pegs s' a = pegs s a) \<and>
      current_move s' = current_move s + 1 \<and>
      num_disks s' = num_disks s \<and> total_moves s' = total_moves s"
proof -
  have "disks (pegs s t) = [] \<or> k < size_disk (last (disks (pegs s t)))"
    using assms(4) last_in_set by blast
  then show ?thesis
    using assms(1-3) by (auto simp: execute_move_unfold Let_def)
qed

text \<open>
  The recursion invariant: when the top of peg \<open>f\<close> is a tower \<open>T\<close> of the sizes
  \<open>n, ..., 1\<close> and every other disk in play is larger than \<open>n\<close>, the moves of
  \<^verbatim>\<open>hanoi_solver(n, f, t, a)\<close> all succeed and carry the tower onto peg \<open>t\<close>.
\<close>

lemma hanoi_solver_moves_tower:
  assumes "1 \<le> n"
  shows "f \<noteq> t \<Longrightarrow> f \<noteq> a \<Longrightarrow> t \<noteq> a \<Longrightarrow>
    disks (pegs s f) = xs @ T \<Longrightarrow> map size_disk T = rev [1..n] \<Longrightarrow>
    \<forall>x\<in>set xs. n < size_disk x \<Longrightarrow>
    \<forall>x\<in>set (disks (pegs s t)). n < size_disk x \<Longrightarrow>
    \<forall>x\<in>set (disks (pegs s a)). n < size_disk x \<Longrightarrow>
    \<exists>ms s'. hanoi_solver n f t a = Some ms \<and> execute_all s ms = (Inr True, s') \<and>
      disks (pegs s' f) = xs \<and> disks (pegs s' t) = disks (pegs s t) @ T \<and>
      disks (pegs s' a) = disks (pegs s a) \<and>
      current_move s' = current_move s + (2 ^ nat n - 1) \<and>
      num_disks s' = num_disks s \<and> total_moves s' = total_moves s"
  using assms
proof (induction n arbitrary: s f t a xs T rule: int_ge_induct)
  case base
  from base.prems(5) obtain d where T: "T = [d]" and d: "size_disk d = 1"
    by auto
  obtain s' where "execute_move s (Move 1 f t) = (Inr True, s')"
    "disks (pegs s' f) = xs" "disks (pegs s' t) = disks (pegs s t) @ [d]"
    "pegs s' a = pegs s a"
    "current_move s' = current_move s + 1"
    "num_disks s' = num_disks s" "total_moves s' = total_moves s"
    using execute_move_legal [of f t s xs d 1] base.prems(1-4,7) d unfolding T by auto
  then show ?case by (simp add: hanoi_solver_one T)
next
  case (step i)
  have up: "[1..i + 1] = [1..i] @ [i + 1]"
    using step.hyps by (simp add: upto_rec2)
  from step.prems(5) obtain d T' where T: "T = d # T'" and d: "size_disk d = i + 1"
    and T': "map size_disk T' = rev [1..i]"
    unfolding up by auto
  have f: "disks (pegs s f) = (xs @ [d]) @ T'"
    using step.prems(4) T by simp
  have big: "\<forall>x\<in>set (xs @ [d]). i < size_disk x"
    "\<forall>x\<in>set (disks (pegs s t)). i < size_disk x"
    "\<forall>x\<in>set (disks (pegs s a)). i < size_disk x"
    using step.prems(6-8) d by auto
  have fa: "f \<noteq> a" and at: "a \<noteq> t" and tf: "t \<noteq> f" and ft: "f \<noteq> t"
    and af: "a \<noteq> f"
    using step.prems(1-3) by auto
  from step.IH [OF fa ft at f T' big(1) big(3) big(2)]
  obtain ms1 s1 where ms1: "hanoi_solver i f a t = Some ms1"
    and run1: "execute_all s ms1 = (Inr True, s1)"
    and s1: "disks (pegs s1 f) = xs @ [d]" "disks (pegs s1 a) = disks (pegs s a) @ T'"
      "disks (pegs s1 t) = disks (pegs s t)"
      "current_move s1 = current_move s + (2 ^ nat i - 1)"
      "num_disks s1 = num_disks s" "total_moves s1 = total_moves s"
    by blast
  have "\<forall>x\<in>set (disks (pegs s1 t)). i + 1 < size_disk x"
    using step.prems(7) s1(3) by simp
  from execute_move_legal [OF ft s1(1) d this]
  obtain s2 where run2: "execute_move s1 (Move (i + 1) f t) = (Inr True, s2)"
    and s2': "disks (pegs s2 f) = xs" "disks (pegs s2 t) = disks (pegs s1 t) @ [d]"
      "\<forall>a. a \<noteq> f \<longrightarrow> a \<noteq> t \<longrightarrow> pegs s2 a = pegs s1 a"
      "current_move s2 = current_move s1 + 1"
      "num_disks s2 = num_disks s1" "total_moves s2 = total_moves s1"
    by blast
  have a2: "disks (pegs s2 a) = disks (pegs s a) @ T'"
    using s2'(3) s1(2) fa at by simp
  have t2: "disks (pegs s2 t) = disks (pegs s t) @ [d]"
    using s2'(2) s1(3) by simp
  have big2: "\<forall>x\<in>set (disks (pegs s2 t)). i < size_disk x"
    "\<forall>x\<in>set (disks (pegs s2 f)). i < size_disk x"
    using step.prems(6,7) d s2'(1) t2 by auto
  from step.IH [OF at af tf a2 T' big(3) big2(1) big2(2)]
  obtain ms2 s3 where ms2: "hanoi_solver i a t f = Some ms2"
    and run3: "execute_all s2 ms2 = (Inr True, s3)"
    and s3: "disks (pegs s3 a) = disks (pegs s a)" "disks (pegs s3 t) = disks (pegs s2 t) @ T'"
      "disks (pegs s3 f) = disks (pegs s2 f)"
      "current_move s3 = current_move s2 + (2 ^ nat i - 1)"
      "num_disks s3 = num_disks s2" "total_moves s3 = total_moves s2"
    by blast
  have pow: "(2::int) ^ nat (i + 1) = 2 * 2 ^ nat i"
    using step.hyps by (simp add: nat_add_distrib)
  have eq: "hanoi_solver (i + 1) f t a = Some (ms1 @ [Move (i + 1) f t] @ ms2)"
    using step.hyps ms1 ms2 by (simp add: hanoi_solver_rec)
  have "execute_all s1 ([Move (i + 1) f t] @ ms2) = (Inr True, s3)"
    using run2 run3 by simp
  then have run: "execute_all s (ms1 @ [Move (i + 1) f t] @ ms2) = (Inr True, s3)"
    using run1 by (simp only: execute_all_append)
  have "disks (pegs s3 f) = xs" "disks (pegs s3 t) = disks (pegs s t) @ T"
    "disks (pegs s3 a) = disks (pegs s a)"
    "current_move s3 = current_move s + (2 ^ nat (i + 1) - 1)"
    "num_disks s3 = num_disks s" "total_moves s3 = total_moves s"
    using s3 s2' s1 t2 T by (simp_all add: pow)
  with eq run show ?case by blast
qed

text \<open>
  C1. For every \<open>n \<ge> 1\<close>, the moves yielded by
  \<^verbatim>\<open>hanoi_solver(n, SOURCE, DESTINATION, AUXILIARY)\<close>, executed in order on a fresh
  \<^verbatim>\<open>GameState(n)\<close>, all return \<^verbatim>\<open>True\<close> (the run ends with \<open>Inr True\<close>, which
  \<open>execute_all\<close> gives only when no call failed or raised); afterwards \<^verbatim>\<open>is_solved()\<close>
  holds and \<^verbatim>\<open>current_move\<close> equals \<^verbatim>\<open>total_moves\<close>, which is \<open>2^n - 1\<close>.
\<close>

theorem hanoi_solver_solves_puzzle:
  "1 \<le> n \<Longrightarrow>
   \<exists>ms s0 s'. hanoi_solver n SOURCE DESTINATION AUXILIARY = Some ms \<and>
     GameState_init n = Inr s0 \<and>
     execute_all s0 ms = (Inr True, s') \<and>
     is_solved s' \<and>
     total_moves s' = Some (2 ^ nat n - 1) \<and>
     current_move s' = 2 ^ nat n - 1"
proof -
  assume n: "1 \<le> n"
  let ?T = "map (\<lambda>j. Disk_init j (colour_for palette j)) (rev [1..n])"
  let ?s0 = "\<lparr>num_disks = n, total_moves = pow2_minus1 n, current_move = 0,
          pegs = Peg_init(SOURCE := \<lparr>name = SOURCE, disks = ?T\<rparr>),
          colours = palette\<rparr>"
  have init: "GameState_init n = Inr ?s0" by (rule GameState_init_eq)
  have src: "disks (pegs ?s0 SOURCE) = [] @ ?T" by simp
  have sz: "map size_disk ?T = rev [1..n]" by (rule sizes_fresh)
  have none: "\<forall>x\<in>set ([]::Disk list). n < size_disk x"
    "\<forall>x\<in>set (disks (pegs ?s0 DESTINATION)). n < size_disk x"
    "\<forall>x\<in>set (disks (pegs ?s0 AUXILIARY)). n < size_disk x"
    by (simp_all add: Peg_init_def)
  from hanoi_solver_moves_tower [OF n _ _ _ src sz none]
  obtain ms s' where ms: "hanoi_solver n SOURCE DESTINATION AUXILIARY = Some ms"
    and run: "execute_all ?s0 ms = (Inr True, s')"
    and s': "disks (pegs s' SOURCE) = []"
      "disks (pegs s' DESTINATION) = disks (pegs ?s0 DESTINATION) @ ?T"
      "disks (pegs s' AUXILIARY) = disks (pegs ?s0 AUXILIARY)"
      "current_move s' = current_move ?s0 + (2 ^ nat n - 1)"
      "num_disks s' = num_disks ?s0" "total_moves s' = total_moves ?s0"
    by blast
  have "is_solved s'"
    using n s' by (simp add: is_solved_def size_peg_def is_empty_def Peg_init_def)
  moreover have "total_moves s' = Some (2 ^ nat n - 1)"
    using n s'(6) by (simp add: pow2_minus1_def)
  moreover have "current_move s' = 2 ^ nat n - 1"
    using s'(4) by simp
  ultimately show ?thesis using ms init run by blast
qed

theorem hanoi_solver_solves_puzzle_witness:
  "(1::int) \<le> 3 \<and>
   (\<exists>ms s0 s'. hanoi_solver 3 SOURCE DESTINATION AUXILIARY = Some ms \<and>
     GameState_init 3 = Inr s0 \<and>
     execute_all s0 ms = (Inr True, s') \<and>
     is_solved s' \<and> total_moves s' = Some 7 \<and> current_move s' = 7)"
  using hanoi_solver_solves_puzzle [of 3] by simp

section \<open>Rejections\<close>




text \<open>
  The three guards of \<^verbatim>\<open>execute_move\<close> as the code has them: an empty source peg, a
  top disk of another size, or a destination top that is strictly smaller. Each leaves
  the state and the counter unchanged and reports \<^verbatim>\<open>False\<close>.
\<close>

lemma execute_move_rejects:
  "disks (pegs s (from_peg m)) = [] \<or>
   size_disk (last (disks (pegs s (from_peg m)))) \<noteq> disk_size m \<or>
   (disks (pegs s (to_peg m)) \<noteq> [] \<and>
    size_disk (last (disks (pegs s (to_peg m)))) < disk_size m) \<Longrightarrow>
   execute_move s m = (Inr False, s)"
  by (auto simp: execute_move_unfold Let_def)

text \<open>
  The third guard compares with \<^verbatim>\<open><\<close> where \<^verbatim>\<open>Peg.push\<close> compares with \<^verbatim>\<open>>=\<close>. A
  destination top of the same size as the moved disk passes the guard; between two
  different pegs the push then raises after the source peg has been popped.
\<close>

lemma execute_move_equal_sizes_raises:
  "from_peg m \<noteq> to_peg m \<Longrightarrow>
   disks (pegs s (from_peg m)) \<noteq> [] \<Longrightarrow>
   size_disk (last (disks (pegs s (from_peg m)))) = disk_size m \<Longrightarrow>
   disks (pegs s (to_peg m)) \<noteq> [] \<Longrightarrow>
   size_disk (last (disks (pegs s (to_peg m)))) = disk_size m \<Longrightarrow>
   execute_move s m =
     (Inl ValueError,
      s\<lparr>pegs := (pegs s)(from_peg m :=
           (pegs s (from_peg m))\<lparr>disks := butlast (disks (pegs s (from_peg m)))\<rparr>)\<rparr>)"
  by (simp add: execute_move_unfold Let_def)

text \<open>
  C3. The claim: \<^verbatim>\<open>execute_move\<close> rejects, with pegs and counter unchanged, when the
  source peg is empty, when its top disk is not of size \<^verbatim>\<open>move.disk_size\<close>, or when the
  destination peg is non-empty and its top is not strictly greater than
  \<^verbatim>\<open>move.disk_size\<close>. On a fresh \<^verbatim>\<open>GameState(3)\<close> the move of disk 1 from SOURCE to
  SOURCE meets the third condition (the destination top has size 1), yet the code
  returns \<^verbatim>\<open>True\<close> and counts the move.
\<close>

theorem execute_move_accepts_equal_top:
  "case GameState_init 3 of
     Inl e \<Rightarrow> False
   | Inr s0 \<Rightarrow>
       \<not> is_empty (pegs s0 SOURCE) \<and>
       map_option size_disk (peek (pegs s0 SOURCE)) = Some 1 \<and>
       current_move s0 = 0 \<and>
       fst (execute_move s0 (Move 1 SOURCE SOURCE)) = Inr True \<and>
       current_move (snd (execute_move s0 (Move 1 SOURCE SOURCE))) = 1 \<and>
       sizes (pegs (snd (execute_move s0 (Move 1 SOURCE SOURCE))) SOURCE) = [3, 2, 1]"
  by code_simp

section \<open>Pause and resume\<close>

text \<open>
  C9. A call of \<^verbatim>\<open>next_move\<close> while the controller is not running (no solve in
  progress, or paused) is a no-op: no move is pulled from the generator and the
  puzzle state, like every other attribute, is unchanged. A resume through
  \<^verbatim>\<open>toggle_pause\<close> pulls the first move the generator has not yet yielded and executes
  it on the current state: playback continues, it does not restart.
\<close>

theorem stale_step_is_noop_and_resume_continues:
  "(\<not> is_solving g \<or> is_paused g \<longrightarrow> next_move g = (Inr (), g)) \<and>
   (is_solving g \<and> is_paused g \<and> move_generator g = Some (m # rest) \<and>
    game_state g = Some gs \<longrightarrow>
      move_generator (snd (toggle_pause g)) = Some rest \<and>
      game_state (snd (toggle_pause g)) = Some (snd (execute_move gs m)))"
  by (auto simp: next_move_def toggle_pause_def finish_solving_def Let_def
      split: prod.splits sum.splits)

theorem stale_step_is_noop_and_resume_continues_witness:
  "case GameState_init 3 of
     Inl e \<Rightarrow> False
   | Inr s0 \<Rightarrow>
       (let s1 = snd (execute_move s0 (Move 1 SOURCE DESTINATION));
            paused =
              \<lparr>game_state = Some s1,
               move_generator =
                 Some [Move 2 SOURCE AUXILIARY, Move 1 DESTINATION AUXILIARY,
                       Move 3 SOURCE DESTINATION, Move 1 AUXILIARY SOURCE,
                       Move 2 AUXILIARY DESTINATION, Move 1 SOURCE DESTINATION],
               is_solving = True, is_paused = True, animation_speed = 500,
               current_move_gui = Some (Move 1 SOURCE DESTINATION), scheduled = [500]\<rparr>
        in next_move paused = (Inr (), paused) \<and>
           move_generator (snd (toggle_pause paused)) =
             Some [Move 1 DESTINATION AUXILIARY, Move 3 SOURCE DESTINATION,
                   Move 1 AUXILIARY SOURCE, Move 2 AUXILIARY DESTINATION,
                   Move 1 SOURCE DESTINATION] \<and>
           game_state (snd (toggle_pause paused)) =
             Some (snd (execute_move s1 (Move 2 SOURCE AUXILIARY))))"
proof -
  obtain s0 where s0: "GameState_init 3 = Inr s0"
    using GameState_init_eq by blast
  let ?s1 = "snd (execute_move s0 (Move 1 SOURCE DESTINATION))"
  let ?rest = "[Move 1 DESTINATION AUXILIARY, Move 3 SOURCE DESTINATION,
                   Move 1 AUXILIARY SOURCE, Move 2 AUXILIARY DESTINATION,
                   Move 1 SOURCE DESTINATION]"
  let ?paused = "\<lparr>game_state = Some ?s1,
               move_generator = Some (Move 2 SOURCE AUXILIARY # ?rest),
               is_solving = True, is_paused = True, animation_speed = 500,
               current_move_gui = Some (Move 1 SOURCE DESTINATION), scheduled = [500]\<rparr>"
  show ?thesis
    using stale_step_is_noop_and_resume_continues
      [of ?paused "Move 2 SOURCE AUXILIARY" ?rest ?s1]
    by (simp add: s0 Let_def)
qed

text \<open>
  A run of three disks: one step, pause, a stale step (nothing happens), resume (the
  second move of the sequence is executed).
\<close>

lemma controller_scenario:
  "case GameState_init 3 of
     Inl e \<Rightarrow> False
   | Inr s0 \<Rightarrow>
       (let running =
              \<lparr>game_state = Some s0,
               move_generator = hanoi_solver 3 SOURCE DESTINATION AUXILIARY,
               is_solving = True, is_paused = False, animation_speed = 500,
               current_move_gui = None, scheduled = []\<rparr>;
            g1 = snd (next_move running);
            g2 = snd (toggle_pause g1);
            g3 = snd (next_move g2);
            g4 = snd (toggle_pause g3)
        in map (\<lambda>g. map_option (\<lambda>s. map (\<lambda>k. sizes (pegs s k))
                     [SOURCE, AUXILIARY, DESTINATION]) (game_state g)) [g1, g2, g3, g4] =
             [Some [[3, 2], [], [1]], Some [[3, 2], [], [1]],
              Some [[3, 2], [], [1]], Some [[3], [2], [1]]] \<and>
           map is_paused [g1, g2, g3, g4] = [False, True, True, False] \<and>
           map current_move_gui [g1, g2, g3, g4] =
             [Some (Move 1 SOURCE DESTINATION), Some (Move 1 SOURCE DESTINATION),
              Some (Move 1 SOURCE DESTINATION), Some (Move 2 SOURCE AUXILIARY)])"
  by code_simp

end
